theory Spec2Isabelle
  imports Main "HOL-Library.AList"
begin

section \<open>The TTL cache of src/services/cache.js\<close>

text \<open>
  A cache entry is the object \<^verbatim>\<open>{ data, expiresAt }\<close> that \<^verbatim>\<open>set\<close> stores.
  Instants and durations are integral milliseconds (what \<^verbatim>\<open>Date.now()\<close> returns),
  so they are modelled by \<open>int\<close>. The payload is opaque.
\<close>

record 'v item =
  data :: 'v
  expiresAt :: int

text \<open>
  The backing store is a JavaScript \<^verbatim>\<open>Map\<close>: keys are unique and entries are
  iterated in insertion order. It is modelled by an association list in insertion
  order; \<^verbatim>\<open>Map.get\<close> is \<open>map_of\<close>, \<^verbatim>\<open>Map.set\<close> is \<open>AList.update\<close>
  (an existing key keeps its position, a new key goes to the end),
  \<^verbatim>\<open>Map.delete\<close> is \<open>AList.delete\<close> and \<^verbatim>\<open>Map.size\<close> is \<open>length\<close>.
  Every store built from the empty one by these operations has distinct keys.
\<close>

type_synonym 'v cache = "(string \<times> 'v item) list"

record stats =
  totalEntries :: nat
  validEntries :: nat
  expiredEntries :: nat

text \<open>
  \<^verbatim>\<open>get(key)\<close>: the clock reading \<^verbatim>\<open>Date.now()\<close> is the argument \<open>now\<close>. The
  result pairs the returned value (\<open>None\<close> is the \<^verbatim>\<open>null\<close> of a miss) with the
  store after the call.
\<close>

definition get :: "int \<Rightarrow> string \<Rightarrow> 'v cache \<Rightarrow> 'v option \<times> 'v cache" where
  "get now key c =
     (case map_of c key of
        None \<Rightarrow> (None, c)
      | Some item \<Rightarrow>
          if now > expiresAt item then (None, AList.delete key c)
          else (Some (data item), c))"

text \<open>\<^verbatim>\<open>set(key, data, ttlMs)\<close>: no validation of \<^verbatim>\<open>ttlMs\<close>, no failure path.\<close>

definition set_cache :: "int \<Rightarrow> string \<Rightarrow> 'v \<Rightarrow> int \<Rightarrow> 'v cache \<Rightarrow> 'v cache" where
  "set_cache now key d ttlMs c =
     (let expires = now + ttlMs
      in AList.update key \<lparr>data = d, expiresAt = expires\<rparr> c)"

definition delete_cache :: "string \<Rightarrow> 'v cache \<Rightarrow> 'v cache" where
  "delete_cache key c = AList.delete key c"

definition clear :: "'v cache \<Rightarrow> 'v cache" where
  "clear c = []"

text \<open>
  \<^verbatim>\<open>getStats()\<close>: one pass over the entries with the two counters of the source;
  \<^verbatim>\<open>totalEntries\<close> is the size of the store.
\<close>

definition count_entry :: "int \<Rightarrow> string \<times> 'v item \<Rightarrow> nat \<times> nat \<Rightarrow> nat \<times> nat" where
  "count_entry now entry acc =
     (case (entry, acc) of
        ((key, item), (valid, expired)) \<Rightarrow>
          if now > expiresAt item then (valid, expired + 1)
          else (valid + 1, expired))"

definition getStats :: "int \<Rightarrow> 'v cache \<Rightarrow> stats" where
  "getStats now c =
     (case fold (count_entry now) c (0, 0) of
        (valid, expired) \<Rightarrow>
          \<lparr>totalEntries = length c, validEntries = valid, expiredEntries = expired\<rparr>)"

text \<open>
  \<^verbatim>\<open>cleanup()\<close>: the loop visits every entry of the store and deletes, by key,
  those whose expiry lies before the clock reading taken once at the start.
\<close>

definition cleanup_entry :: "int \<Rightarrow> string \<times> 'v item \<Rightarrow> 'v cache \<Rightarrow> 'v cache" where
  "cleanup_entry now entry c =
     (case entry of
        (key, item) \<Rightarrow> if now > expiresAt item then AList.delete key c else c)"

definition cleanup :: "int \<Rightarrow> 'v cache \<Rightarrow> 'v cache" where
  "cleanup now c = fold (cleanup_entry now) c c"

text \<open>
  The keys that a \<^verbatim>\<open>cleanup()\<close> pass over the entries \<open>xs\<close> deletes.
\<close>

definition expired_keys :: "int \<Rightarrow> 'v cache \<Rightarrow> string list" where
  "expired_keys now xs = map fst (filter (\<lambda>(key, item). now > expiresAt item) xs)"

text \<open>
  The expiry rule in the words of the specification: an entry is valid iff
  \<open>now < expiresAt\<close>, and expired otherwise. This definition follows the
  specification, not the source, and is only used to compare the two.
\<close>

definition spec_valid :: "int \<Rightarrow> 'v item \<Rightarrow> bool" where
  "spec_valid now item = (now < expiresAt item)"

section \<open>The retry executor of src/utils/retry.js\<close>

text \<open>
  A rejection value is any JavaScript value. The model keeps the shapes the source
  distinguishes: \<^verbatim>\<open>undefined\<close> and \<^verbatim>\<open>null\<close> (reading a property of either
  raises a \<^verbatim>\<open>TypeError\<close>), that \<^verbatim>\<open>TypeError\<close>, and any other value, of which
  only the properties \<^verbatim>\<open>response.status\<close> and \<^verbatim>\<open>code\<close> are read; \<open>rest\<close>
  stands for everything else the value carries. A missing property is \<open>None\<close>.
\<close>

datatype http_response = Response (status: "int option")

datatype 'm js_error =
    Undefined
  | Null
  | TypeError
  | ErrorObject (response: "http_response option") (code: "string option") (rest: 'm)

text \<open>
  The default \<^verbatim>\<open>shouldRetry\<close>. \<^verbatim>\<open>error.response?.status >= 500\<close> is false
  when \<^verbatim>\<open>response\<close> or \<^verbatim>\<open>status\<close> is missing; \<^verbatim>\<open>error.response\<close> itself
  raises when \<^verbatim>\<open>error\<close> is \<^verbatim>\<open>undefined\<close> or \<^verbatim>\<open>null\<close>. A classifier
  returns \<open>Inr b\<close> for the boolean \<open>b\<close> and \<open>Inl x\<close> when it raises \<open>x\<close>.
\<close>

fun defaultShouldRetry :: "'m js_error \<Rightarrow> 'm js_error + bool" where
  "defaultShouldRetry Undefined = Inl TypeError"
| "defaultShouldRetry Null = Inl TypeError"
| "defaultShouldRetry TypeError = Inr False"
| "defaultShouldRetry (ErrorObject resp cd m) =
     Inr ((case resp of
             None \<Rightarrow> False
           | Some r \<Rightarrow> (case status r of None \<Rightarrow> False | Some n \<Rightarrow> n \<ge> 500))
          \<or> cd = Some ''ECONNABORTED''
          \<or> cd = Some ''ENOTFOUND''
          \<or> cd = Some ''ECONNRESET'')"

text \<open>
  The operation \<^verbatim>\<open>fn\<close> takes no argument; what it returns depends on the world
  outside (the upstream service, a mock's call count). It is a function from the
  world to its outcome (\<open>Inl\<close> a rejection, \<open>Inr\<close> a result) and the world
  after the call. A run records the number of invocations of \<^verbatim>\<open>fn\<close> and the
  delays passed to \<^verbatim>\<open>sleep\<close>, in order.
\<close>

record 's trace =
  world :: 's
  calls :: nat
  sleeps :: "int list"

record 'm retry_options =
  maxAttempts :: "int option"
  baseDelay :: "int option"
  maxDelay :: "int option"
  shouldRetry :: "('m js_error \<Rightarrow> 'm js_error + bool) option"

text \<open>
  The \<^verbatim>\<open>for\<close> loop with its \<^verbatim>\<open>try\<close>/\<^verbatim>\<open>catch\<close>, from the attempt counter
  \<open>attempt\<close> on. After the loop comes \<^verbatim>\<open>throw lastError\<close>. The classifier
  is consulted only when the attempt is not the last one (the \<^verbatim>\<open>||\<close> of the
  source), and what it raises leaves the executor as the rejection. The attempt
  budget and the delays are whole numbers (of milliseconds), on which the power and
  the minimum of the source are exact. The log line has no effect on the result and
  is left out.
\<close>

function retry_loop ::
  "('s \<Rightarrow> ('m js_error + 'a) \<times> 's) \<Rightarrow> int \<Rightarrow> int \<Rightarrow> int \<Rightarrow>
   ('m js_error \<Rightarrow> 'm js_error + bool) \<Rightarrow> int \<Rightarrow> 'm js_error \<Rightarrow> 's trace \<Rightarrow>
   ('m js_error + 'a) \<times> 's trace" where
  "retry_loop fn maxA baseD maxD sr attempt lastError t =
     (if attempt \<le> maxA then
        (case fn (world t) of
           (Inr result, w) \<Rightarrow> (Inr result, t\<lparr>world := w, calls := calls t + 1\<rparr>)
         | (Inl error, w) \<Rightarrow>
             (let t1 = t\<lparr>world := w, calls := calls t + 1\<rparr>
              in if attempt = maxA then (Inl error, t1)
                 else (case sr error of
                         Inl raised \<Rightarrow> (Inl raised, t1)
                       | Inr False \<Rightarrow> (Inl error, t1)
                       | Inr True \<Rightarrow>
                           (let delay = min (baseD * 2 ^ nat (attempt - 1)) maxD
                            in retry_loop fn maxA baseD maxD sr (attempt + 1) error
                                 (t1\<lparr>sleeps := sleeps t1 @ [delay]\<rparr>)))))
      else (Inl lastError, t))"
  by pat_completeness auto
termination
  by (relation "measure (\<lambda>(fn, maxA, baseD, maxD, sr, attempt, lastError, t).
                  nat (maxA + 1 - attempt))") auto

declare retry_loop.simps [simp del]

text \<open>
  \<^verbatim>\<open>retryWithExponentialBackoff(fn, options)\<close>: an option left out takes its
  default (the destructuring \<^verbatim>\<open>{ maxAttempts = 3, ... } = options\<close>);
  \<^verbatim>\<open>lastError\<close> starts out \<^verbatim>\<open>undefined\<close>.
\<close>

definition with_default :: "'a \<Rightarrow> 'a option \<Rightarrow> 'a" where
  "with_default d x = (case x of None \<Rightarrow> d | Some v \<Rightarrow> v)"

definition retryWithExponentialBackoff ::
  "('s \<Rightarrow> ('m js_error + 'a) \<times> 's) \<Rightarrow> 'm retry_options \<Rightarrow> 's \<Rightarrow>
   ('m js_error + 'a) \<times> 's trace" where
  "retryWithExponentialBackoff fn options w =
     (let maxA = with_default 3 (maxAttempts options);
          baseD = with_default 1000 (baseDelay options);
          maxD = with_default 10000 (maxDelay options);
          sr = with_default defaultShouldRetry (shouldRetry options)
      in retry_loop fn maxA baseD maxD sr 1 Undefined
           \<lparr>world = w, calls = 0, sleeps = []\<rparr>)"

text \<open>
  The world after \<open>n\<close> invocations of the operation, and the outcome of its
  \<open>n\<close>-th invocation (counted from 1), when it is invoked again and again
  starting in world \<open>w\<close>.
\<close>

fun world_after :: "('s \<Rightarrow> ('e + 'a) \<times> 's) \<Rightarrow> 's \<Rightarrow> nat \<Rightarrow> 's" where
  "world_after fn w 0 = w"
| "world_after fn w (Suc n) = world_after fn (snd (fn w)) n"

definition invocation :: "('s \<Rightarrow> ('e + 'a) \<times> 's) \<Rightarrow> 's \<Rightarrow> nat \<Rightarrow> 'e + 'a" where
  "invocation fn w n = fst (fn (world_after fn w (n - 1)))"

text \<open>
  The \<open>j\<close>-th invocation of the operation fails, with an error for which the
  classifier returns true.
\<close>

definition accepted_failure ::
  "('e \<Rightarrow> 'e + bool) \<Rightarrow> ('s \<Rightarrow> ('e + 'a) \<times> 's) \<Rightarrow> 's \<Rightarrow> nat \<Rightarrow> bool" where
  "accepted_failure sr fn w j =
     (case invocation fn w j of Inl e \<Rightarrow> sr e = Inr True | Inr v \<Rightarrow> False)"

section \<open>Properties of the cache\<close>

subsection \<open>Auxiliary facts\<close>

lemma set_expired_keys:
  "set (expired_keys now xs) = {key. \<exists>item. (key, item) \<in> set xs \<and> now > expiresAt item}"
  by (induction xs) (auto simp: expired_keys_def)

lemma cleanup_entry_pair:
  "cleanup_entry now (k, i) c = (if now > expiresAt i then AList.delete k c else c)"
  by (simp add: cleanup_entry_def)

lemma expired_keys_Cons:
  "set (expired_keys now ((k, i) # xs)) =
     (if now > expiresAt i then insert k (set (expired_keys now xs)) else set (expired_keys now xs))"
  by (auto simp: set_expired_keys)

lemma filter_delete_keys:
  "filter (\<lambda>(key, item). key \<notin> S) (AList.delete k c) =
   filter (\<lambda>(key, item). key \<notin> insert k S) c"
  by (induction c) (auto simp: AList.delete_eq)

lemma fold_cleanup_entry:
  "fold (cleanup_entry now) xs c = filter (\<lambda>(key, item). key \<notin> set (expired_keys now xs)) c"
proof (induction xs arbitrary: c)
  case Nil
  then show ?case by (simp add: set_expired_keys)
next
  case (Cons x xs)
  obtain k i where x: "x = (k, i)" by (cases x)
  have "fold (cleanup_entry now) (x # xs) c = fold (cleanup_entry now) xs (cleanup_entry now (k, i) c)"
    by (simp add: x)
  also have "\<dots> = filter (\<lambda>(key, item). key \<notin> set (expired_keys now xs)) (cleanup_entry now (k, i) c)"
    by (rule Cons.IH)
  also have "\<dots> = filter (\<lambda>(key, item). key \<notin> set (expired_keys now (x # xs))) c"
    by (simp add: x cleanup_entry_pair expired_keys_Cons filter_delete_keys)
  finally show ?case .
qed

lemma expired_keys_distinct:
  assumes "distinct (map fst c)" and "(key, item) \<in> set c"
  shows "key \<in> set (expired_keys now c) \<longleftrightarrow> now > expiresAt item"
proof
  assume "key \<in> set (expired_keys now c)"
  then obtain item' where i': "(key, item') \<in> set c" "now > expiresAt item'"
    by (auto simp: set_expired_keys)
  from assms i'(1) have "item' = item"
    by (rule_tac eq_key_imp_eq_value)
  with i'(2) show "now > expiresAt item" by simp
next
  assume "now > expiresAt item"
  with assms(2) show "key \<in> set (expired_keys now c)"
    by (auto simp: set_expired_keys)
qed

lemma cleanup_filter:
  assumes "distinct (map fst c)"
  shows "cleanup now c = filter (\<lambda>(key, item). now \<le> expiresAt item) c"
proof -
  have "filter (\<lambda>(key, item). key \<notin> set (expired_keys now c)) c
        = filter (\<lambda>(key, item). now \<le> expiresAt item) c"
  proof (rule filter_cong[OF refl])
    fix x assume mem: "x \<in> set c"
    obtain k i where x: "x = (k, i)" by (cases x)
    from mem have "k \<in> set (expired_keys now c) \<longleftrightarrow> now > expiresAt i"
      unfolding x by (rule expired_keys_distinct[OF assms])
    then show "(case x of (key, item) \<Rightarrow> key \<notin> set (expired_keys now c))
              = (case x of (key, item) \<Rightarrow> now \<le> expiresAt item)"
      by (simp add: x not_less)
  qed
  then show ?thesis
    by (simp add: cleanup_def fold_cleanup_entry)
qed

lemma expired_keys_cleanup: "set (expired_keys now (cleanup now c)) = {}"
proof -
  have "\<And>key item. (key, item) \<in> set (cleanup now c) \<Longrightarrow> \<not> now > expiresAt item"
  proof -
    fix key item assume "(key, item) \<in> set (cleanup now c)"
    then have "(key, item) \<in> set c" and "key \<notin> set (expired_keys now c)"
      by (simp_all add: cleanup_def fold_cleanup_entry)
    then show "\<not> now > expiresAt item"
      by (auto simp: set_expired_keys)
  qed
  then show ?thesis
    by (auto simp: set_expired_keys)
qed

lemma cleanup_idem: "cleanup now (cleanup now c) = cleanup now c"
proof -
  have "cleanup now (cleanup now c)
        = filter (\<lambda>(key, item). key \<notin> set (expired_keys now (cleanup now c))) (cleanup now c)"
    unfolding cleanup_def[of now "cleanup now c"] by (rule fold_cleanup_entry)
  then show ?thesis
    by (simp add: expired_keys_cleanup)
qed

lemma map_of_filter_item:
  "map_of c key = Some item \<Longrightarrow> P item \<Longrightarrow>
   map_of (filter (\<lambda>(k, i). P i) c) key = Some item"
  by (induction c) (auto split: if_splits)

lemma fold_count_entry:
  "fold (count_entry now) c (v, e) =
     (v + length (filter (\<lambda>(key, item). now \<le> expiresAt item) c),
      e + length (filter (\<lambda>(key, item). now > expiresAt item) c))"
  by (induction c arbitrary: v e) (auto simp: count_entry_def)

lemma getStats_counts:
  "getStats now c =
     \<lparr>totalEntries = length c,
      validEntries = length (filter (\<lambda>(key, item). now \<le> expiresAt item) c),
      expiredEntries = length (filter (\<lambda>(key, item). now > expiresAt item) c)\<rparr>"
  by (simp add: getStats_def fold_count_entry)

lemma length_filter_split:
  "length (filter (\<lambda>(key, item). now \<le> expiresAt item) c)
   + length (filter (\<lambda>(key, item). now > expiresAt item) c) = length (c :: 'v cache)"
  by (induction c) auto

lemma map_of_filter_keys:
  "key \<in> S \<Longrightarrow> map_of (filter (\<lambda>(k, i). k \<notin> S) c) key = None"
  by (induction c) auto

lemma length_filter_update:
  assumes "distinct (map fst c)"
  shows "length (filter (\<lambda>(k, i). P i) (AList.update key v c))
         = length (filter (\<lambda>(k, i). P i) (AList.delete key c)) + (if P v then 1 else 0)"
  using assms
proof (induction c)
  case Nil
  then show ?case by simp
next
  case (Cons p ps)
  obtain k i where p: "p = (k, i)" by (cases p)
  show ?case
  proof (cases "k = key")
    case True
    with Cons.prems have "key \<notin> fst ` set ps" by (simp add: p)
    then have "AList.delete key ps = ps" by simp
    then show ?thesis using True by (simp add: p)
  next
    case False
    with Cons show ?thesis by (simp add: p)
  qed
qed

lemma length_update:
  assumes "distinct (map fst c)"
  shows "length (AList.update key v c) = length (AList.delete key c) + 1"
  using length_filter_update[OF assms, of "\<lambda>i. True" key v] by simp

lemma update_mem: "(key, v) \<in> set (AList.update key v c)"
  by (rule map_of_SomeD) (simp add: update_conv')

lemma distinct_keys_preserved:
  assumes "distinct (map fst c)"
  shows "distinct (map fst (set_cache now key d ttlMs c))"
    and "distinct (map fst (delete_cache key c))"
    and "distinct (map fst (snd (get now key c)))"
    and "distinct (map fst (cleanup now c))"
    and "distinct (map fst (clear c))"
proof -
  show "distinct (map fst (set_cache now key d ttlMs c))"
    using assms by (simp add: set_cache_def distinct_update)
  show "distinct (map fst (delete_cache key c))"
    using assms by (simp add: delete_cache_def distinct_delete)
  show "distinct (map fst (snd (get now key c)))"
    using assms by (simp add: get_def distinct_delete split: option.split)
  show "distinct (map fst (cleanup now c))"
    using assms by (simp add: cleanup_def fold_cleanup_entry distinct_map_filter)
  show "distinct (map fst (clear c))"
    by (simp add: clear_def)
qed

subsection \<open>The claims about the cache\<close>

text \<open>
  Claim C1, as the code has it. An entry whose expiry instant lies strictly before
  the clock reading (\<open>now > expiresAt\<close>) is reported absent by \<open>get\<close> and
  removed from the store, and no other key is touched; an entry read at or before its
  expiry instant (\<open>now \<le> expiresAt\<close>) is returned and the store is unchanged. So
  an entry stored with \<open>ttlMs = 0\<close> is absent on every read strictly after the
  instant of its insertion.
\<close>

theorem get_expired_entry:
  "(map_of c key = Some item \<and> now > expiresAt item \<longrightarrow>
      get now key c = (None, delete_cache key c)
      \<and> map_of (delete_cache key c) key = None
      \<and> (\<forall>k. k \<noteq> key \<longrightarrow> map_of (delete_cache key c) k = map_of c k))
   \<and> (map_of c key = Some item \<and> now \<le> expiresAt item \<longrightarrow>
      get now key c = (Some (data item), c))
   \<and> (inserted < later \<longrightarrow>
      get later key (set_cache inserted key d 0 c) = (None, delete_cache key c))"
  by (simp add: get_def delete_cache_def set_cache_def update_conv' delete_conv'
        delete_update_same)

theorem get_expired_entry_witness:
  "map_of [(''london'', \<lparr>data = 15::int, expiresAt = 1000\<rparr>)] ''london''
     = Some \<lparr>data = 15, expiresAt = 1000\<rparr>
   \<and> (1001::int) > expiresAt \<lparr>data = 15::int, expiresAt = 1000\<rparr>
   \<and> get 1001 ''london'' [(''london'', \<lparr>data = 15::int, expiresAt = 1000\<rparr>)]
       = (None, delete_cache ''london'' [(''london'', \<lparr>data = 15::int, expiresAt = 1000\<rparr>)])
   \<and> delete_cache ''london'' [(''london'', \<lparr>data = 15::int, expiresAt = 1000\<rparr>)] = []
   \<and> (1000::int) < 1001
   \<and> get 1001 ''london'' (set_cache 1000 ''london'' (15::int) 0 []) = (None, [])"
  using get_expired_entry
    [where c = "[(''london'', \<lparr>data = 15::int, expiresAt = 1000\<rparr>)]"
       and key = "''london''" and item = "\<lparr>data = 15::int, expiresAt = 1000\<rparr>"
       and now = 1001 and inserted = 1000 and later = 1001 and d = 15]
    get_expired_entry
    [where c = "[]" and key = "''london''" and inserted = 1000 and later = 1001
       and d = "15::int"]
  by (simp add: delete_cache_def)

text \<open>
  Claim C1 as stated fails at the expiry instant itself: an entry stored with
  \<open>ttlMs = 0\<close> at instant 1000 has \<open>expiresAt = 1000\<close>, and a read at instant
  1000 (\<open>now \<ge> expiresAt\<close>) returns its value and leaves it in the store.
\<close>

theorem get_at_expiry_instant_counterexample:
  "(1000::int) \<ge> expiresAt \<lparr>data = 15::int, expiresAt = 1000\<rparr>
   \<and> set_cache 1000 ''london'' (15::int) 0 [] = [(''london'', \<lparr>data = 15, expiresAt = 1000\<rparr>)]
   \<and> get 1000 ''london'' (set_cache 1000 ''london'' (15::int) 0 [])
       = (Some 15, [(''london'', \<lparr>data = 15, expiresAt = 1000\<rparr>)])"
  by (simp add: get_def set_cache_def)

text \<open>
  Claim C6, as the code has it. \<open>getStats\<close> counts every entry of the store,
  an entry as expired iff \<open>now > expiresAt\<close> and as valid iff
  \<open>now \<le> expiresAt\<close>, and \<open>totalEntries = validEntries + expiredEntries\<close>.
\<close>

theorem getStats_classification:
  "getStats now c =
     \<lparr>totalEntries = length c,
      validEntries = length (filter (\<lambda>(key, item). now \<le> expiresAt item) c),
      expiredEntries = length (filter (\<lambda>(key, item). now > expiresAt item) c)\<rparr>
   \<and> totalEntries (getStats now c)
       = validEntries (getStats now c) + expiredEntries (getStats now c)"
  by (simp add: getStats_counts length_filter_split)

text \<open>
  Claim C6 as stated classifies by the invariant "valid iff \<open>now < expiresAt\<close>".
  At the expiry instant the entry is not valid by that invariant, and \<open>getStats\<close>
  counts it as valid.
\<close>

theorem getStats_at_expiry_instant_counterexample:
  "\<not> spec_valid 1000 \<lparr>data = 15::int, expiresAt = 1000\<rparr>
   \<and> getStats 1000 [(''london'', \<lparr>data = 15::int, expiresAt = 1000\<rparr>)]
       = \<lparr>totalEntries = 1, validEntries = 1, expiredEntries = 0\<rparr>"
  by (simp add: spec_valid_def getStats_def count_entry_def)

text \<open>
  Claim C7, as the code has it. At a fixed instant, on a store with distinct keys:
  a second \<open>cleanup\<close> changes nothing and \<open>getStats\<close> is the same after one
  run and after two; one run removes exactly the entries with
  \<open>now > expiresAt\<close> and keeps every entry with \<open>now \<le> expiresAt\<close> (these
  are the entries \<open>getStats\<close> counts as expired and as valid: afterwards the
  expired count is 0 and the valid count is what it was); and \<open>get\<close> on a key
  whose entry has \<open>now \<le> expiresAt\<close> still returns its value.
\<close>

theorem cleanup_idempotent_removes_expired:
  assumes "distinct (map fst c)"
  shows "cleanup now (cleanup now c) = cleanup now c
     \<and> getStats now (cleanup now (cleanup now c)) = getStats now (cleanup now c)
     \<and> cleanup now c = filter (\<lambda>(key, item). \<not> now > expiresAt item) c
     \<and> getStats now (cleanup now c)
         = \<lparr>totalEntries = validEntries (getStats now c),
            validEntries = validEntries (getStats now c),
            expiredEntries = 0\<rparr>
     \<and> (\<forall>key item. map_of c key = Some item \<and> \<not> now > expiresAt item \<longrightarrow>
           get now key (cleanup now c) = (Some (data item), cleanup now c))"
proof -
  have f: "cleanup now c = filter (\<lambda>(key, item). now \<le> expiresAt item) c"
    by (rule cleanup_filter[OF assms])
  have g: "\<And>key item. map_of c key = Some item \<Longrightarrow> now \<le> expiresAt item \<Longrightarrow>
             get now key (cleanup now c) = (Some (data item), cleanup now c)"
  proof -
    fix key item assume "map_of c key = Some item" and v: "now \<le> expiresAt item"
    then have "map_of (cleanup now c) key = Some item"
      unfolding f by (rule map_of_filter_item)
    with v show "get now key (cleanup now c) = (Some (data item), cleanup now c)"
      by (simp add: get_def)
  qed
  have s: "getStats now (cleanup now c)
         = \<lparr>totalEntries = validEntries (getStats now c),
            validEntries = validEntries (getStats now c),
            expiredEntries = 0\<rparr>"
    unfolding f by (auto simp: getStats_counts filter_empty_conv)
  from f have f': "cleanup now c = filter (\<lambda>(key, item). \<not> now > expiresAt item) c"
    by (simp add: not_less)
  have i: "cleanup now (cleanup now c) = cleanup now c"
    by (rule cleanup_idem)
  show ?thesis
  proof (intro conjI allI impI)
    show "cleanup now (cleanup now c) = cleanup now c"
      by (rule i)
    show "getStats now (cleanup now (cleanup now c)) = getStats now (cleanup now c)"
      by (simp only: i)
    show "cleanup now c = filter (\<lambda>(key, item). \<not> now > expiresAt item) c"
      by (rule f')
    show "getStats now (cleanup now c)
         = \<lparr>totalEntries = validEntries (getStats now c),
            validEntries = validEntries (getStats now c),
            expiredEntries = 0\<rparr>"
      by (rule s)
  next
    fix key item
    assume "map_of c key = Some item \<and> \<not> now > expiresAt item"
    then show "get now key (cleanup now c) = (Some (data item), cleanup now c)"
      using g[of key item] by (simp add: not_less)
  qed
qed

theorem cleanup_idempotent_removes_expired_witness:
  "distinct (map fst [(''london'', \<lparr>data = 15::int, expiresAt = 1000\<rparr>),
                      (''paris'', \<lparr>data = 20, expiresAt = 3000\<rparr>)])
   \<and> cleanup 2000 [(''london'', \<lparr>data = 15::int, expiresAt = 1000\<rparr>),
                     (''paris'', \<lparr>data = 20, expiresAt = 3000\<rparr>)]
       = [(''paris'', \<lparr>data = 20, expiresAt = 3000\<rparr>)]
   \<and> cleanup 2000 (cleanup 2000 [(''london'', \<lparr>data = 15::int, expiresAt = 1000\<rparr>),
                     (''paris'', \<lparr>data = 20, expiresAt = 3000\<rparr>)])
       = [(''paris'', \<lparr>data = 20, expiresAt = 3000\<rparr>)]
   \<and> get 2000 ''paris'' (cleanup 2000 [(''london'', \<lparr>data = 15::int, expiresAt = 1000\<rparr>),
                     (''paris'', \<lparr>data = 20, expiresAt = 3000\<rparr>)])
       = (Some 20, [(''paris'', \<lparr>data = 20, expiresAt = 3000\<rparr>)])"
proof -
  have d: "distinct (map fst [(''london'', \<lparr>data = 15::int, expiresAt = 1000\<rparr>),
                      (''paris'', \<lparr>data = 20, expiresAt = 3000\<rparr>)])"
    by simp
  show ?thesis
    using d cleanup_idempotent_removes_expired[OF d, of 2000]
    by (simp add: get_def cleanup_def cleanup_entry_def)
qed

text \<open>
  Claim C7 as stated takes "expired" from the invariant (expired iff
  \<open>now \<ge> expiresAt\<close>). An entry at its expiry instant is expired by that
  invariant, and \<open>cleanup\<close> leaves it in the store, where \<open>getStats\<close> counts
  it as valid.
\<close>

theorem cleanup_at_expiry_instant_counterexample:
  "\<not> spec_valid 1000 \<lparr>data = 15::int, expiresAt = 1000\<rparr>
   \<and> cleanup 1000 [(''london'', \<lparr>data = 15::int, expiresAt = 1000\<rparr>)]
       = [(''london'', \<lparr>data = 15, expiresAt = 1000\<rparr>)]
   \<and> getStats 1000 (cleanup 1000 [(''london'', \<lparr>data = 15::int, expiresAt = 1000\<rparr>)])
       = \<lparr>totalEntries = 1, validEntries = 1, expiredEntries = 0\<rparr>"
  by (simp add: spec_valid_def cleanup_def cleanup_entry_def getStats_def count_entry_def)

text \<open>
  Claim C8. For a TTL \<open>t > 0\<close>, \<open>get\<close> at the instant of the \<open>set\<close>
  returns the value stored. Whatever the store held for the key, \<open>set\<close> leaves
  the entry \<open>(data, now + t)\<close> under it, and no other key changes.
\<close>

theorem get_after_set:
  "0 < t \<Longrightarrow>
     get now key (set_cache now key d t c) = (Some d, set_cache now key d t c)
     \<and> map_of (set_cache now key d t c) key = Some \<lparr>data = d, expiresAt = now + t\<rparr>
     \<and> (\<forall>k. k \<noteq> key \<longrightarrow> map_of (set_cache now key d t c) k = map_of c k)"
  by (simp add: get_def set_cache_def update_conv')

theorem get_after_set_witness:
  "(0::int) < 60000
   \<and> get 1000 ''london'' (set_cache 1000 ''london'' (15::int) 60000
           [(''london'', \<lparr>data = 7, expiresAt = 900\<rparr>)])
       = (Some 15, [(''london'', \<lparr>data = 15, expiresAt = 61000\<rparr>)])"
proof -
  have h: "(0::int) < 60000" by simp
  show ?thesis
    using h get_after_set[OF h, of 1000 "''london''" "15::int"
                            "[(''london'', \<lparr>data = 7, expiresAt = 900\<rparr>)]"]
    by (simp add: set_cache_def)
qed

text \<open>
  Claim C9. \<open>set\<close> has no failure path: for every \<open>ttlMs\<close> the entry is
  stored with \<open>expiresAt = now + ttlMs\<close>. When \<open>ttlMs\<close> is negative, at every
  instant from the insertion on \<open>get\<close> reports the key absent (and removes it),
  \<open>cleanup\<close> removes it, and \<open>getStats\<close> counts it as expired: on a store
  with distinct keys the statistics are those of the store without the key, with one
  more entry, and that one expired.
\<close>

theorem set_negative_ttl:
  "map_of (set_cache now key d ttlMs c) key = Some \<lparr>data = d, expiresAt = now + ttlMs\<rparr>
   \<and> (ttlMs < 0 \<and> now \<le> later \<longrightarrow>
        get later key (set_cache now key d ttlMs c) = (None, delete_cache key c)
        \<and> map_of (cleanup later (set_cache now key d ttlMs c)) key = None
        \<and> (distinct (map fst c) \<longrightarrow>
             getStats later (set_cache now key d ttlMs c)
             = \<lparr>totalEntries = totalEntries (getStats later (delete_cache key c)) + 1,
                validEntries = validEntries (getStats later (delete_cache key c)),
                expiredEntries = expiredEntries (getStats later (delete_cache key c)) + 1\<rparr>))"
proof (intro conjI impI)
  show "map_of (set_cache now key d ttlMs c) key = Some \<lparr>data = d, expiresAt = now + ttlMs\<rparr>"
    by (simp add: set_cache_def update_conv')
next
  assume "ttlMs < 0 \<and> now \<le> later"
  then have past: "later > now + ttlMs" by simp
  show "get later key (set_cache now key d ttlMs c) = (None, delete_cache key c)"
    using past by (simp add: get_def set_cache_def delete_cache_def update_conv' delete_update_same)
  have "key \<in> set (expired_keys later (set_cache now key d ttlMs c))"
    using past update_mem[of key "\<lparr>data = d, expiresAt = now + ttlMs\<rparr>" c]
    by (auto simp: set_expired_keys set_cache_def)
  then show "map_of (cleanup later (set_cache now key d ttlMs c)) key = None"
    unfolding cleanup_def fold_cleanup_entry by (rule map_of_filter_keys)
  assume dist: "distinct (map fst c)"
  show "getStats later (set_cache now key d ttlMs c)
             = \<lparr>totalEntries = totalEntries (getStats later (delete_cache key c)) + 1,
                validEntries = validEntries (getStats later (delete_cache key c)),
                expiredEntries = expiredEntries (getStats later (delete_cache key c)) + 1\<rparr>"
    using past
    by (simp add: getStats_counts set_cache_def delete_cache_def
          length_filter_update[OF dist] length_update[OF dist])
qed

theorem set_negative_ttl_witness:
  "(-5::int) < 0 \<and> (1000::int) \<le> 1000
   \<and> distinct (map fst [(''paris'', \<lparr>data = 20::int, expiresAt = 3000\<rparr>)])
   \<and> set_cache 1000 ''london'' 15 (-5) [(''paris'', \<lparr>data = 20::int, expiresAt = 3000\<rparr>)]
       = [(''paris'', \<lparr>data = 20, expiresAt = 3000\<rparr>),
          (''london'', \<lparr>data = 15, expiresAt = 995\<rparr>)]
   \<and> get 1000 ''london''
         (set_cache 1000 ''london'' 15 (-5) [(''paris'', \<lparr>data = 20::int, expiresAt = 3000\<rparr>)])
       = (None, [(''paris'', \<lparr>data = 20, expiresAt = 3000\<rparr>)])
   \<and> getStats 1000
         (set_cache 1000 ''london'' 15 (-5) [(''paris'', \<lparr>data = 20::int, expiresAt = 3000\<rparr>)])
       = \<lparr>totalEntries = 2, validEntries = 1, expiredEntries = 1\<rparr>
   \<and> cleanup 1000
         (set_cache 1000 ''london'' 15 (-5) [(''paris'', \<lparr>data = 20::int, expiresAt = 3000\<rparr>)])
       = [(''paris'', \<lparr>data = 20, expiresAt = 3000\<rparr>)]"
  using set_negative_ttl[of 1000 "''london''" "15::int" "-5"
          "[(''paris'', \<lparr>data = 20::int, expiresAt = 3000\<rparr>)]" 1000]
  by (simp add: set_cache_def delete_cache_def getStats_def count_entry_def
        cleanup_def cleanup_entry_def)

section \<open>Properties of the retry executor\<close>

subsection \<open>Unfolding the loop\<close>

lemma retry_loop_exit:
  "\<not> attempt \<le> maxA \<Longrightarrow>
   retry_loop fn maxA baseD maxD sr attempt lastError t = (Inl lastError, t)"
  by (subst retry_loop.simps) (simp add: Let_def)

lemma retry_loop_success:
  "attempt \<le> maxA \<Longrightarrow> fn (world t) = (Inr r, w) \<Longrightarrow>
   retry_loop fn maxA baseD maxD sr attempt lastError t
     = (Inr r, t\<lparr>world := w, calls := calls t + 1\<rparr>)"
  by (subst retry_loop.simps) (simp add: Let_def)

lemma retry_loop_last:
  "attempt = maxA \<Longrightarrow> fn (world t) = (Inl e, w) \<Longrightarrow>
   retry_loop fn maxA baseD maxD sr attempt lastError t
     = (Inl e, t\<lparr>world := w, calls := calls t + 1\<rparr>)"
  by (subst retry_loop.simps) (simp add: Let_def)

lemma retry_loop_refused:
  "attempt \<le> maxA \<Longrightarrow> fn (world t) = (Inl e, w) \<Longrightarrow> sr e = Inr False \<Longrightarrow>
   retry_loop fn maxA baseD maxD sr attempt lastError t
     = (Inl e, t\<lparr>world := w, calls := calls t + 1\<rparr>)"
  by (subst retry_loop.simps) (simp add: Let_def)

lemma retry_loop_raised:
  "attempt < maxA \<Longrightarrow> fn (world t) = (Inl e, w) \<Longrightarrow> sr e = Inl x \<Longrightarrow>
   retry_loop fn maxA baseD maxD sr attempt lastError t
     = (Inl x, t\<lparr>world := w, calls := calls t + 1\<rparr>)"
  by (subst retry_loop.simps) (simp add: Let_def)

lemma retry_loop_retry:
  "attempt < maxA \<Longrightarrow> fn (world t) = (Inl e, w) \<Longrightarrow> sr e = Inr True \<Longrightarrow>
   retry_loop fn maxA baseD maxD sr attempt lastError t
     = retry_loop fn maxA baseD maxD sr (attempt + 1) e
         (t\<lparr>world := w, calls := calls t + 1,
            sleeps := sleeps t @ [min (baseD * 2 ^ nat (attempt - 1)) maxD]\<rparr>)"
  by (subst retry_loop.simps) (simp add: Let_def)

lemma retry_loop_cases [case_names exit stop retry]:
  obtains
    (exit) "\<not> attempt \<le> maxA"
      "retry_loop fn maxA baseD maxD sr attempt lastError t = (Inl lastError, t)"
  | (stop) r where "attempt \<le> maxA"
      "retry_loop fn maxA baseD maxD sr attempt lastError t
         = (r, t\<lparr>world := snd (fn (world t)), calls := calls t + 1\<rparr>)"
      "\<And>v. r = Inr v \<longleftrightarrow> fst (fn (world t)) = Inr v"
  | (retry) e where "attempt < maxA" "fst (fn (world t)) = Inl e" "sr e = Inr True"
      "retry_loop fn maxA baseD maxD sr attempt lastError t
         = retry_loop fn maxA baseD maxD sr (attempt + 1) e
             (t\<lparr>world := snd (fn (world t)), calls := calls t + 1,
                sleeps := sleeps t @ [min (baseD * 2 ^ nat (attempt - 1)) maxD]\<rparr>)"
proof (cases "attempt \<le> maxA")
  case False
  then show ?thesis using exit retry_loop_exit by blast
next
  case le: True
  obtain out w where f: "fn (world t) = (out, w)" by (cases "fn (world t)")
  show ?thesis
  proof (cases out)
    case (Inr r)
    with le f show ?thesis
      using stop[of "Inr r"] retry_loop_success[of attempt maxA fn t r w] by simp
  next
    case (Inl e)
    show ?thesis
    proof (cases "attempt = maxA")
      case True
      with le f Inl show ?thesis
        using stop[of "Inl e"] retry_loop_last[of attempt maxA fn t e w] by simp
    next
      case ne: False
      with le have lt: "attempt < maxA" by simp
      show ?thesis
      proof (cases "sr e")
        case (Inl x)
        with lt le f \<open>out = Inl e\<close> show ?thesis
          using stop[of "Inl x"] retry_loop_raised[of attempt maxA fn t e w sr x] by simp
      next
        case (Inr b)
        show ?thesis
        proof (cases b)
          case True
          with lt f \<open>out = Inl e\<close> Inr show ?thesis
            using retry[of e] retry_loop_retry[of attempt maxA fn t e w sr] by simp
        next
          case False
          with le f \<open>out = Inl e\<close> Inr show ?thesis
            using stop[of "Inl e"] retry_loop_refused[of attempt maxA fn t e w sr] by simp
        qed
      qed
    qed
  qed
qed

lemma retry_loop_trace:
  assumes "retry_loop fn maxA baseD maxD sr attempt lastError t = (r, t')" and "1 \<le> attempt"
  shows "calls t \<le> calls t'
     \<and> (attempt \<le> maxA \<longrightarrow> calls t < calls t')
     \<and> sleeps t' = sleeps t @ map (\<lambda>j. min (baseD * 2 ^ (nat (attempt - 1) + j)) maxD)
                                  [0..<calls t' - calls t - 1]
     \<and> (\<forall>j. j < calls t' - calls t - 1 \<longrightarrow>
            (\<exists>e. fst (fn (world_after fn (world t) j)) = Inl e))
     \<and> (\<forall>v. r = Inr v \<longleftrightarrow>
            calls t < calls t'
            \<and> fst (fn (world_after fn (world t) (calls t' - calls t - 1))) = Inr v)"
  using assms
proof (induction "nat (maxA + 1 - attempt)" arbitrary: attempt lastError t)
  case 0
  then have "\<not> attempt \<le> maxA" by simp
  with 0 show ?case by (auto simp: retry_loop_exit)
next
  case (Suc k)
  show ?case
  proof (cases rule: retry_loop_cases[of attempt maxA fn baseD maxD sr lastError t])
    case exit
    with Suc.prems show ?thesis by auto
  next
    case (stop r0)
    with Suc.prems have "r = r0" and "t' = t\<lparr>world := snd (fn (world t)), calls := calls t + 1\<rparr>"
      by simp_all
    with stop show ?thesis by simp
  next
    case (retry e)
    define t2 where "t2 = t\<lparr>world := snd (fn (world t)), calls := calls t + 1,
                sleeps := sleeps t @ [min (baseD * 2 ^ nat (attempt - 1)) maxD]\<rparr>"
    have run2: "retry_loop fn maxA baseD maxD sr (attempt + 1) e t2 = (r, t')"
      using retry(4) Suc.prems(1) by (simp add: t2_def)
    have k: "k = nat (maxA + 1 - (attempt + 1))"
      using Suc.hyps(2) by simp
    have a2: "1 \<le> attempt + 1" using Suc.prems(2) by simp
    note ih = Suc.hyps(1)[OF k run2 a2]
    have le2: "attempt + 1 \<le> maxA" using retry(1) by simp
    have c2: "calls t2 = calls t + 1" and w2: "world t2 = snd (fn (world t))"
      and s2: "sleeps t2 = sleeps t @ [min (baseD * 2 ^ nat (attempt - 1)) maxD]"
      by (simp_all add: t2_def)
    from ih le2 have lt: "calls t2 < calls t'" by simp
    define n where "n = calls t' - calls t2 - 1"
    have n1: "calls t' - calls t - 1 = Suc n"
      using lt c2 by (simp add: n_def)
    have ex: "nat (attempt + 1 - 1) = Suc (nat (attempt - 1))"
      using Suc.prems(2) by simp
    have sl: "sleeps t' = sleeps t @ map (\<lambda>j. min (baseD * 2 ^ (nat (attempt - 1) + j)) maxD)
                                  [0..<Suc n]"
    proof -
      from ih have "sleeps t' = sleeps t2 @ map (\<lambda>j. min (baseD * 2 ^ (nat (attempt + 1 - 1) + j)) maxD)
                                  [0..<n]"
        by (simp only: n_def)
      then show ?thesis
        unfolding s2 ex by (simp add: map_upt_Suc del: upt_Suc)
    qed
    have fails: "\<And>j. j < Suc n \<Longrightarrow> \<exists>e. fst (fn (world_after fn (world t) j)) = Inl e"
    proof -
      fix j assume j: "j < Suc n"
      show "\<exists>e. fst (fn (world_after fn (world t) j)) = Inl e"
      proof (cases j)
        case 0
        with retry(2) show ?thesis by simp
      next
        case (Suc i)
        with j have "i < calls t' - calls t2 - 1" by (simp add: n_def)
        with ih have "\<exists>e. fst (fn (world_after fn (world t2) i)) = Inl e" by blast
        then show ?thesis by (simp add: Suc w2)
      qed
    qed
    have res: "\<And>v. r = Inr v \<longleftrightarrow>
            calls t < calls t' \<and> fst (fn (world_after fn (world t) (Suc n))) = Inr v"
    proof -
      fix v
      from ih have "r = Inr v \<longleftrightarrow>
            calls t2 < calls t' \<and> fst (fn (world_after fn (world t2) n)) = Inr v"
        by (simp only: n_def)
      then show "r = Inr v \<longleftrightarrow>
            calls t < calls t' \<and> fst (fn (world_after fn (world t) (Suc n))) = Inr v"
        using lt c2 by (simp add: w2)
    qed
    show ?thesis
      unfolding n1 using lt c2 sl fails res by simp
  qed
qed

lemma retry_loop_all_fail:
  assumes "attempt \<le> maxA"
    and "\<forall>j. j \<le> nat (maxA - attempt) \<longrightarrow>
           (\<exists>e. fst (fn (world_after fn (world t) j)) = Inl e \<and> sr e = Inr True)"
  shows "fst (retry_loop fn maxA baseD maxD sr attempt lastError t)
           = fst (fn (world_after fn (world t) (nat (maxA - attempt))))
     \<and> calls (snd (retry_loop fn maxA baseD maxD sr attempt lastError t))
           = calls t + nat (maxA - attempt) + 1"
  using assms
proof (induction "nat (maxA - attempt)" arbitrary: attempt lastError t)
  case 0
  then have eq: "attempt = maxA" by simp
  obtain out w where f: "fn (world t) = (out, w)" by (cases "fn (world t)")
  from "0.prems"(2) obtain e where "out = Inl e" using f by fastforce
  with f have fe: "fn (world t) = (Inl e, w)" by simp
  have "retry_loop fn maxA baseD maxD sr attempt lastError t
          = (Inl e, t\<lparr>world := w, calls := calls t + 1\<rparr>)"
    using eq fe by (rule retry_loop_last)
  then show ?case using eq fe by simp
next
  case (Suc k)
  then have lt: "attempt < maxA" by simp
  obtain out w where f: "fn (world t) = (out, w)" by (cases "fn (world t)")
  from Suc.prems(2) obtain e where e: "out = Inl e" "sr e = Inr True"
    using f by fastforce
  define t2 where "t2 = t\<lparr>world := w, calls := calls t + 1,
            sleeps := sleeps t @ [min (baseD * 2 ^ nat (attempt - 1)) maxD]\<rparr>"
  have step: "retry_loop fn maxA baseD maxD sr attempt lastError t
               = retry_loop fn maxA baseD maxD sr (attempt + 1) e t2"
    using retry_loop_retry[OF lt, of fn t e w sr baseD maxD lastError] f e
    by (simp add: t2_def)
  have k: "k = nat (maxA - (attempt + 1))" using Suc.hyps(2) by simp
  have le: "attempt + 1 \<le> maxA" using lt by simp
  have sk: "nat (maxA - attempt) = Suc k" using Suc.hyps(2) by simp
  have w2: "world t2 = snd (fn (world t))" and c2: "calls t2 = calls t + 1"
    by (simp_all add: t2_def f)
  have hyp: "\<forall>j. j \<le> nat (maxA - (attempt + 1)) \<longrightarrow>
           (\<exists>e. fst (fn (world_after fn (world t2) j)) = Inl e \<and> sr e = Inr True)"
  proof (intro allI impI)
    fix j assume "j \<le> nat (maxA - (attempt + 1))"
    then have "Suc j \<le> nat (maxA - attempt)" using k sk by simp
    with Suc.prems(2) have "\<exists>e. fst (fn (world_after fn (world t) (Suc j))) = Inl e \<and> sr e = Inr True"
      by blast
    then show "\<exists>e. fst (fn (world_after fn (world t2) j)) = Inl e \<and> sr e = Inr True"
      by (simp add: w2)
  qed
  from Suc.hyps(1)[OF k le hyp, of e]
  show ?case
    unfolding step sk by (simp add: k[symmetric] w2 c2)
qed

lemma map_upt_from_2: "map (\<lambda>i. f (i - 2)) [2..<Suc n] = map f [0..<n - 1]"
proof -
  have "map (\<lambda>j. j + 2) [0..<n - 1] = [2..<n - 1 + 2]"
    by (rule map_add_upt)
  moreover have "[2..<n - 1 + 2] = [2..<Suc n]"
    by (cases n) simp_all
  ultimately have "[2..<Suc n] = map (\<lambda>j. j + 2) [0..<n - 1]"
    by simp
  then show ?thesis by (simp add: comp_def del: upt_Suc)
qed

lemma retry_loop_progress:
  assumes "1 \<le> attempt" and "int m \<le> maxA - attempt"
    and "\<forall>j. j < m \<longrightarrow>
           (\<exists>e. fst (fn (world_after fn (world t) j)) = Inl e \<and> sr e = Inr True)"
  shows "calls t + m + 1 \<le> calls (snd (retry_loop fn maxA baseD maxD sr attempt lastError t))"
  using assms
proof (induction m arbitrary: attempt lastError t)
  case 0
  obtain r t' where run: "retry_loop fn maxA baseD maxD sr attempt lastError t = (r, t')"
    by (cases "retry_loop fn maxA baseD maxD sr attempt lastError t")
  from "0.prems"(2) have "attempt \<le> maxA" by simp
  with retry_loop_trace[OF run "0.prems"(1)] have "calls t < calls t'" by simp
  then show ?case by (simp add: run)
next
  case (Suc m)
  from Suc.prems(2) have lt: "attempt < maxA" by simp
  obtain out w where f: "fn (world t) = (out, w)" by (cases "fn (world t)")
  from Suc.prems(3) have "\<exists>e. fst (fn (world_after fn (world t) 0)) = Inl e \<and> sr e = Inr True"
    by blast
  then obtain e where e: "out = Inl e" "sr e = Inr True"
    using f by auto
  define t2 where "t2 = t\<lparr>world := w, calls := calls t + 1,
            sleeps := sleeps t @ [min (baseD * 2 ^ nat (attempt - 1)) maxD]\<rparr>"
  have fe: "fn (world t) = (Inl e, w)" using f e by simp
  have step: "retry_loop fn maxA baseD maxD sr attempt lastError t
               = retry_loop fn maxA baseD maxD sr (attempt + 1) e t2"
    unfolding t2_def using lt fe e(2) by (rule retry_loop_retry)
  have a2: "1 \<le> attempt + 1" using Suc.prems(1) by simp
  have m2: "int m \<le> maxA - (attempt + 1)" using Suc.prems(2) by simp
  have w2: "world t2 = snd (fn (world t))" and c2: "calls t2 = calls t + 1"
    by (simp_all add: t2_def f)
  have hyp: "\<forall>j. j < m \<longrightarrow>
           (\<exists>e. fst (fn (world_after fn (world t2) j)) = Inl e \<and> sr e = Inr True)"
  proof (intro allI impI)
    fix j assume "j < m"
    then have "Suc j < Suc m" by simp
    with Suc.prems(3) have "\<exists>e. fst (fn (world_after fn (world t) (Suc j))) = Inl e \<and> sr e = Inr True"
      by blast
    then show "\<exists>e. fst (fn (world_after fn (world t2) j)) = Inl e \<and> sr e = Inr True"
      by (simp add: w2)
  qed
  from Suc.IH[OF a2 m2 hyp, of e] show ?case
    unfolding step by (simp add: c2)
qed

lemma accepted_failure_iff:
  "accepted_failure sr fn w j \<longleftrightarrow> (\<exists>e. invocation fn w j = Inl e \<and> sr e = Inr True)"
  by (simp add: accepted_failure_def split: sum.split)

subsection \<open>The claims about the retry executor\<close>

text \<open>
  Claim C2. Let \<open>N \<ge> 1\<close> be the attempt budget (\<^verbatim>\<open>maxAttempts\<close>, or its
  default). If each of the first \<open>N\<close> invocations of the operation fails with an
  error that the classifier accepts, the executor invokes the operation exactly
  \<open>N\<close> times and rejects with the error of the \<open>N\<close>-th invocation.
\<close>

theorem retry_exhausts_attempts:
  assumes "N = with_default 3 (maxAttempts options)" and "1 \<le> N"
    and "\<forall>i. 1 \<le> i \<and> i \<le> nat N \<longrightarrow>
           (\<exists>e. invocation fn w i = Inl e
                \<and> with_default defaultShouldRetry (shouldRetry options) e = Inr True)"
  shows "calls (snd (retryWithExponentialBackoff fn options w)) = nat N
     \<and> (\<exists>e. invocation fn w (nat N) = Inl e
            \<and> fst (retryWithExponentialBackoff fn options w) = Inl e)"
proof -
  define sr where "sr = with_default defaultShouldRetry (shouldRetry options)"
  define t0 where "t0 = \<lparr>world = w, calls = 0, sleeps = []\<rparr>"
  have run: "retryWithExponentialBackoff fn options w
             = retry_loop fn N (with_default 1000 (baseDelay options))
                 (with_default 10000 (maxDelay options)) sr 1 Undefined t0"
    by (simp add: retryWithExponentialBackoff_def assms(1) sr_def t0_def)
  have n: "nat (N - 1) = nat N - 1" and n': "Suc (nat N - 1) = nat N"
    using assms(2) by simp_all
  have hyp: "\<forall>j. j \<le> nat (N - 1) \<longrightarrow>
           (\<exists>e. fst (fn (world_after fn (world t0) j)) = Inl e \<and> sr e = Inr True)"
  proof (intro allI impI)
    fix j assume "j \<le> nat (N - 1)"
    then have "1 \<le> Suc j \<and> Suc j \<le> nat N" using assms(2) by simp
    with assms(3) have "\<exists>e. invocation fn w (Suc j) = Inl e \<and> sr e = Inr True"
      unfolding sr_def by blast
    then show "\<exists>e. fst (fn (world_after fn (world t0) j)) = Inl e \<and> sr e = Inr True"
      by (simp add: invocation_def t0_def)
  qed
  have "1 \<le> nat N \<and> nat N \<le> nat N" using assms(2) by simp
  with assms(3) obtain e where e: "invocation fn w (nat N) = Inl e"
    by blast
  from retry_loop_all_fail[OF assms(2) hyp, of "with_default 1000 (baseDelay options)"
         "with_default 10000 (maxDelay options)" Undefined]
  have "fst (retryWithExponentialBackoff fn options w) = invocation fn w (nat N)"
    and "calls (snd (retryWithExponentialBackoff fn options w)) = nat N"
    unfolding run using assms(2) by (simp_all add: invocation_def t0_def n)
  with e show ?thesis by simp
qed

theorem retry_exhausts_attempts_witness:
  "(2::int) = with_default 3 (maxAttempts
       \<lparr>maxAttempts = Some 2, baseDelay = Some 10, maxDelay = None,
        shouldRetry = (None :: (nat js_error \<Rightarrow> nat js_error + bool) option)\<rparr>)
   \<and> (1::int) \<le> 2
   \<and> invocation (\<lambda>n::nat. (Inl (ErrorObject None (Some ''ECONNRESET'') n) :: nat js_error + string, Suc n)) 0 2
       = Inl (ErrorObject None (Some ''ECONNRESET'') 1)
   \<and> calls (snd (retryWithExponentialBackoff
         (\<lambda>n::nat. (Inl (ErrorObject None (Some ''ECONNRESET'') n) :: nat js_error + string, Suc n))
         \<lparr>maxAttempts = Some 2, baseDelay = Some 10, maxDelay = None, shouldRetry = None\<rparr> 0)) = 2
   \<and> fst (retryWithExponentialBackoff
         (\<lambda>n::nat. (Inl (ErrorObject None (Some ''ECONNRESET'') n) :: nat js_error + string, Suc n))
         \<lparr>maxAttempts = Some 2, baseDelay = Some 10, maxDelay = None, shouldRetry = None\<rparr> 0)
       = Inl (ErrorObject None (Some ''ECONNRESET'') 1)"
proof -
  define fn :: "nat \<Rightarrow> (nat js_error + string) \<times> nat"
    where "fn = (\<lambda>n. (Inl (ErrorObject None (Some ''ECONNRESET'') n), Suc n))"
  define options :: "nat retry_options"
    where "options = \<lparr>maxAttempts = Some 2, baseDelay = Some 10, maxDelay = None,
                        shouldRetry = None\<rparr>"
  have wa: "world_after fn w n = w + n" for w n
    by (induction n arbitrary: w) (simp_all add: fn_def)
  have inv: "invocation fn 0 i = Inl (ErrorObject None (Some ''ECONNRESET'') (i - 1))" for i
    by (simp add: invocation_def wa) (simp add: fn_def)
  have n: "(2::int) = with_default 3 (maxAttempts options)"
    by (simp add: options_def with_default_def)
  have le: "(1::int) \<le> 2" by simp
  have hyp: "\<forall>i. 1 \<le> i \<and> i \<le> nat 2 \<longrightarrow>
           (\<exists>e. invocation fn 0 i = Inl e
                \<and> with_default defaultShouldRetry (shouldRetry options) e = Inr True)"
    by (simp add: inv options_def with_default_def)
  show ?thesis
    using n le retry_exhausts_attempts[OF n le hyp] inv[of 2]
    unfolding fn_def options_def by simp
qed

text \<open>
  Claim C3. Let \<open>N\<close> be the attempt budget, and \<open>baseD\<close> and \<open>maxD\<close>
  the two delays of the options. In every run the delays slept are, in order, the
  values \<open>min (baseD * 2 ^ (i - 2)) maxD\<close> for \<open>i = 2, ..., calls\<close>: the power
  is computed first and then clamped, one delay is slept before each attempt after
  the first and none after the last. With a budget of at least one the operation
  is invoked. For every \<open>i \<ge> 2\<close> within the budget, if the invocations before
  the \<open>i\<close>-th all fail with errors the classifier accepts, then attempt \<open>i\<close>
  is made and the delay slept before it is \<open>min (baseD * 2 ^ (i - 2)) maxD\<close>.
  Every invocation before the last one failed, and the run resolves with \<open>v\<close>
  exactly when its last invocation succeeded with \<open>v\<close>. If the \<open>k\<close>-th
  invocation, \<open>k\<close> within the budget, succeeds with \<open>v\<close> after \<open>k - 1\<close>
  accepted failures, the executor returns \<open>v\<close> after exactly \<open>k\<close> invocations
  and the \<open>k - 1\<close> delays before them: no further attempt and no further delay.
\<close>

theorem backoff_delays:
  assumes "retryWithExponentialBackoff fn options w = (r, t')"
    and "N = with_default 3 (maxAttempts options)"
    and "baseD = with_default 1000 (baseDelay options)"
    and "maxD = with_default 10000 (maxDelay options)"
    and "sr = with_default defaultShouldRetry (shouldRetry options)"
  shows "sleeps t' = map (\<lambda>i. min (baseD * 2 ^ (i - 2)) maxD) [2..<Suc (calls t')]
     \<and> (\<forall>i. 2 \<le> i \<and> i \<le> calls t' \<longrightarrow>
            sleeps t' ! (i - 2) = min (baseD * 2 ^ (i - 2)) maxD)
     \<and> (1 \<le> N \<longrightarrow> 1 \<le> calls t')
     \<and> (\<forall>i. 2 \<le> i \<and> int i \<le> N \<and> (\<forall>j. 1 \<le> j \<and> j < i \<longrightarrow> accepted_failure sr fn w j) \<longrightarrow>
            i \<le> calls t' \<and> i - 1 \<le> length (sleeps t')
            \<and> sleeps t' ! (i - 2) = min (baseD * 2 ^ (i - 2)) maxD)
     \<and> (\<forall>i. 1 \<le> i \<and> i < calls t' \<longrightarrow> (\<exists>e. invocation fn w i = Inl e))
     \<and> (\<forall>v. r = Inr v \<longleftrightarrow> 1 \<le> calls t' \<and> invocation fn w (calls t') = Inr v)
     \<and> (\<forall>k v. 1 \<le> k \<and> int k \<le> N
              \<and> (\<forall>j. 1 \<le> j \<and> j < k \<longrightarrow> accepted_failure sr fn w j)
              \<and> invocation fn w k = Inr v \<longrightarrow>
            r = Inr v \<and> calls t' = k
            \<and> sleeps t' = map (\<lambda>i. min (baseD * 2 ^ (i - 2)) maxD) [2..<Suc k])"
proof -
  define t0 where "t0 = \<lparr>world = w, calls = 0, sleeps = []\<rparr>"
  have run: "retry_loop fn N baseD maxD sr 1 Undefined t0 = (r, t')"
    using assms by (simp add: retryWithExponentialBackoff_def t0_def)
  note tr = retry_loop_trace[OF run]
  have s: "sleeps t' = map (\<lambda>j. min (baseD * 2 ^ j) maxD) [0..<calls t' - 1]"
    using tr by (simp add: t0_def)
  have s': "sleeps t' = map (\<lambda>i. min (baseD * 2 ^ (i - 2)) maxD) [2..<Suc (calls t')]"
    unfolding s by (rule map_upt_from_2[symmetric])
  have nth: "sleeps t' ! (i - 2) = min (baseD * 2 ^ (i - 2)) maxD"
    if "2 \<le> i \<and> i \<le> calls t'" for i
  proof -
    from that have "i - 2 < calls t' - 1" by arith
    then show ?thesis unfolding s by simp
  qed
  have len: "length (sleeps t') = calls t' - 1"
    unfolding s by simp
  have f: "\<exists>e. invocation fn w i = Inl e" if "1 \<le> i \<and> i < calls t'" for i
  proof -
    from that have "i - 1 < calls t' - 1" by arith
    with tr show ?thesis by (simp add: invocation_def t0_def)
  qed
  have v: "r = Inr v \<longleftrightarrow> 1 \<le> calls t' \<and> invocation fn w (calls t') = Inr v" for v
    using tr by (auto simp: invocation_def t0_def)
  have first: "1 \<le> calls t'" if "1 \<le> N"
    using tr that by (simp add: t0_def)
  have reach: "i \<le> calls t'"
    if i: "1 \<le> i" "int i \<le> N" and acc: "\<forall>j. 1 \<le> j \<and> j < i \<longrightarrow> accepted_failure sr fn w j" for i
  proof -
    have m: "int (i - 1) \<le> N - 1" using i by simp
    have hyp: "\<forall>j. j < i - 1 \<longrightarrow>
           (\<exists>e. fst (fn (world_after fn (world t0) j)) = Inl e \<and> sr e = Inr True)"
    proof (intro allI impI)
      fix j assume "j < i - 1"
      then have "1 \<le> Suc j \<and> Suc j < i" by arith
      with acc have "accepted_failure sr fn w (Suc j)" by blast
      then show "\<exists>e. fst (fn (world_after fn (world t0) j)) = Inl e \<and> sr e = Inr True"
        by (simp add: accepted_failure_iff invocation_def t0_def)
    qed
    have one: "(1::int) \<le> 1" by simp
    from retry_loop_progress[OF one m hyp, of baseD maxD Undefined]
    have "calls t0 + (i - 1) + 1 \<le> calls t'" by (simp add: run)
    with i(1) show ?thesis by (simp add: t0_def)
  qed
  have succ: "r = Inr v \<and> calls t' = k
            \<and> sleeps t' = map (\<lambda>i. min (baseD * 2 ^ (i - 2)) maxD) [2..<Suc k]"
    if k: "1 \<le> k" "int k \<le> N"
      and acc: "\<forall>j. 1 \<le> j \<and> j < k \<longrightarrow> accepted_failure sr fn w j"
      and ok: "invocation fn w k = Inr v" for k v
  proof -
    have le: "k \<le> calls t'" using k acc by (rule reach)
    have "\<not> k < calls t'"
    proof
      assume "k < calls t'"
      with k(1) f[of k] ok show False by simp
    qed
    with le have eq: "calls t' = k" by simp
    with v[of v] ok k(1) have "r = Inr v" by simp
    with eq s' show ?thesis by simp
  qed
  show ?thesis
  proof (intro conjI allI impI)
    show "sleeps t' = map (\<lambda>i. min (baseD * 2 ^ (i - 2)) maxD) [2..<Suc (calls t')]"
      by (rule s')
  next
    fix i assume "2 \<le> i \<and> i \<le> calls t'"
    then show "sleeps t' ! (i - 2) = min (baseD * 2 ^ (i - 2)) maxD" by (rule nth)
  next
    assume "1 \<le> N" then show "1 \<le> calls t'" by (rule first)
  next
    fix i
    assume a: "2 \<le> i \<and> int i \<le> N \<and> (\<forall>j. 1 \<le> j \<and> j < i \<longrightarrow> accepted_failure sr fn w j)"
    then have r: "i \<le> calls t'" using reach[of i] by simp
    then show "i \<le> calls t'" .
    from r show "i - 1 \<le> length (sleeps t')" unfolding len by simp
    from a r show "sleeps t' ! (i - 2) = min (baseD * 2 ^ (i - 2)) maxD"
      using nth[of i] by simp
  next
    fix i assume "1 \<le> i \<and> i < calls t'"
    then show "\<exists>e. invocation fn w i = Inl e" by (rule f)
  next
    fix v show "r = Inr v \<longleftrightarrow> 1 \<le> calls t' \<and> invocation fn w (calls t') = Inr v"
      by (rule v)
  next
    fix k v
    assume a: "1 \<le> k \<and> int k \<le> N
              \<and> (\<forall>j. 1 \<le> j \<and> j < k \<longrightarrow> accepted_failure sr fn w j)
              \<and> invocation fn w k = Inr v"
    then have "r = Inr v \<and> calls t' = k
            \<and> sleeps t' = map (\<lambda>i. min (baseD * 2 ^ (i - 2)) maxD) [2..<Suc k]"
      using succ[of k v] by simp
    then show "r = Inr v" and "calls t' = k"
      and "sleeps t' = map (\<lambda>i. min (baseD * 2 ^ (i - 2)) maxD) [2..<Suc k]"
      by simp_all
  qed
qed

theorem backoff_delays_witness:
  "accepted_failure defaultShouldRetry
     (\<lambda>n::nat. (if n < 2 then Inl (ErrorObject None (Some ''ECONNRESET'') ())
                 else Inr ''success'', Suc n)) 0 1
   \<and> accepted_failure defaultShouldRetry
     (\<lambda>n::nat. (if n < 2 then Inl (ErrorObject None (Some ''ECONNRESET'') ())
                 else Inr ''success'', Suc n)) 0 2
   \<and> invocation
     (\<lambda>n::nat. (if n < 2 then Inl (ErrorObject None (Some ''ECONNRESET'') ())
                 else Inr ''success'', Suc n)) 0 3 = Inr ''success''
   \<and> int 3 \<le> with_default 3 (maxAttempts
        \<lparr>maxAttempts = Some 3, baseDelay = Some 50, maxDelay = Some 80,
         shouldRetry = (None :: (unit js_error \<Rightarrow> unit js_error + bool) option)\<rparr>)
   \<and> retryWithExponentialBackoff
     (\<lambda>n::nat. (if n < 2 then Inl (ErrorObject None (Some ''ECONNRESET'') ())
                 else Inr ''success'', Suc n))
     \<lparr>maxAttempts = Some 3, baseDelay = Some 50, maxDelay = Some 80, shouldRetry = None\<rparr> 0
     = (Inr ''success'', \<lparr>world = 3, calls = 3, sleeps = [50, 80]\<rparr>)
   \<and> [50, 80] = map (\<lambda>i. min (50 * 2 ^ (i - 2)) (80::int)) [2..<Suc 3]"
proof -
  define fn :: "nat \<Rightarrow> (unit js_error + string) \<times> nat"
    where "fn = (\<lambda>n. (if n < 2 then Inl (ErrorObject None (Some ''ECONNRESET'') ())
                 else Inr ''success'', Suc n))"
  define options :: "unit retry_options"
    where "options = \<lparr>maxAttempts = Some 3, baseDelay = Some 50, maxDelay = Some 80,
                        shouldRetry = None\<rparr>"
  obtain r t' where run: "retryWithExponentialBackoff fn options 0 = (r, t')"
    by (cases "retryWithExponentialBackoff fn options 0")
  have n: "(3::int) = with_default 3 (maxAttempts options)"
    and b: "(50::int) = with_default 1000 (baseDelay options)"
    and m: "(80::int) = with_default 10000 (maxDelay options)"
    and c: "defaultShouldRetry = with_default defaultShouldRetry (shouldRetry options)"
    by (simp_all add: options_def with_default_def)
  have wa: "world_after fn w k = w + k" for w k
    by (induction k arbitrary: w) (simp_all add: fn_def)
  have a1: "accepted_failure defaultShouldRetry fn 0 1"
    and a2: "accepted_failure defaultShouldRetry fn 0 2"
    and i3: "invocation fn 0 3 = Inr ''success''"
    by (simp_all add: accepted_failure_def invocation_def wa) (simp_all add: fn_def)
  have acc: "\<forall>j. 1 \<le> j \<and> j < 3 \<longrightarrow> accepted_failure defaultShouldRetry fn 0 j"
  proof (intro allI impI)
    fix j :: nat assume "1 \<le> j \<and> j < 3"
    then have "j = 1 \<or> j = 2" by arith
    with a1 a2 show "accepted_failure defaultShouldRetry fn 0 j" by auto
  qed
  have k: "(1::nat) \<le> 3 \<and> int 3 \<le> 3" by simp
  from backoff_delays[OF run n b m c] k acc i3
  have "r = Inr ''success'' \<and> calls t' = 3
        \<and> sleeps t' = map (\<lambda>i. min (50 * 2 ^ (i - 2)) (80::int)) [2..<Suc 3]"
    by blast
  moreover have "retryWithExponentialBackoff fn options 0
     = (Inr ''success'', \<lparr>world = 3, calls = 3, sleeps = [50, 80]\<rparr>)"
    by (simp add: retryWithExponentialBackoff_def with_default_def retry_loop.simps
          fn_def options_def)
  ultimately show ?thesis
    using a1 a2 i3 n run unfolding fn_def options_def by simp
qed

text \<open>
  Claim C4. With an attempt budget of at least one, if the first invocation fails
  with an error that the classifier refuses, the operation is invoked exactly once,
  nothing is slept, and the executor rejects with that very error.
\<close>

theorem non_retryable_error_propagates:
  assumes "1 \<le> with_default 3 (maxAttempts options)"
    and "fn w = (Inl e, w')"
    and "with_default defaultShouldRetry (shouldRetry options) e = Inr False"
  shows "retryWithExponentialBackoff fn options w
           = (Inl e, \<lparr>world = w', calls = 1, sleeps = []\<rparr>)"
  using assms
  by (simp add: retryWithExponentialBackoff_def
        retry_loop_refused[of 1 _ fn _ e w'])

theorem non_retryable_error_propagates_witness:
  "(1::int) \<le> with_default 3 (maxAttempts
       \<lparr>maxAttempts = Some 3, baseDelay = Some 10, maxDelay = None,
        shouldRetry = (None :: (unit js_error \<Rightarrow> unit js_error + bool) option)\<rparr>)
   \<and> defaultShouldRetry (ErrorObject (Some (Response (Some 400))) (Some ''BAD_REQUEST'') ())
       = Inr False
   \<and> retryWithExponentialBackoff
        (\<lambda>n::nat. (Inl (ErrorObject (Some (Response (Some 400))) (Some ''BAD_REQUEST'') ())
                      :: unit js_error + string, Suc n))
        \<lparr>maxAttempts = Some 3, baseDelay = Some 10, maxDelay = None, shouldRetry = None\<rparr> 0
       = (Inl (ErrorObject (Some (Response (Some 400))) (Some ''BAD_REQUEST'') ()),
          \<lparr>world = 1, calls = 1, sleeps = []\<rparr>)"
proof -
  define options :: "unit retry_options"
    where "options = \<lparr>maxAttempts = Some 3, baseDelay = Some 10, maxDelay = None,
                        shouldRetry = None\<rparr>"
  have a: "(1::int) \<le> with_default 3 (maxAttempts options)"
    by (simp add: options_def with_default_def)
  define fn :: "nat \<Rightarrow> (unit js_error + string) \<times> nat"
    where "fn = (\<lambda>n. (Inl (ErrorObject (Some (Response (Some 400))) (Some ''BAD_REQUEST'') ()),
                       Suc n))"
  have b: "fn 0 = (Inl (ErrorObject (Some (Response (Some 400))) (Some ''BAD_REQUEST'') ()), 1)"
    by (simp add: fn_def)
  have c: "with_default defaultShouldRetry (shouldRetry options)
             (ErrorObject (Some (Response (Some 400))) (Some ''BAD_REQUEST'') ()) = Inr False"
    by (simp add: options_def with_default_def)
  show ?thesis
    using a c non_retryable_error_propagates[where fn = fn and w = 0, OF a b c]
    unfolding options_def fn_def by (simp add: with_default_def)
qed

text \<open>
  Claim C5. The default classifier returns true exactly for a value that carries
  an HTTP status of at least 500, or the timeout code \<^verbatim>\<open>ECONNABORTED\<close>, or one of
  the network codes \<^verbatim>\<open>ENOTFOUND\<close> and \<^verbatim>\<open>ECONNRESET\<close>. It returns false for
  an error with a 4xx status and none of these codes, and for every error object
  that matches none of the three signatures.
\<close>

theorem defaultShouldRetry_classification:
  "(defaultShouldRetry err = Inr True \<longleftrightarrow>
      (\<exists>resp cd m. err = ErrorObject resp cd m
         \<and> ((\<exists>n. resp = Some (Response (Some n)) \<and> n \<ge> 500)
            \<or> cd = Some ''ECONNABORTED''
            \<or> cd = Some ''ENOTFOUND''
            \<or> cd = Some ''ECONNRESET'')))
   \<and> (400 \<le> st \<and> st < 500
        \<and> c \<noteq> Some ''ECONNABORTED'' \<and> c \<noteq> Some ''ENOTFOUND'' \<and> c \<noteq> Some ''ECONNRESET''
        \<longrightarrow> defaultShouldRetry (ErrorObject (Some (Response (Some st))) c r) = Inr False)
   \<and> (\<not> ((\<exists>n. rs = Some (Response (Some n)) \<and> n \<ge> 500)
            \<or> c = Some ''ECONNABORTED''
            \<or> c = Some ''ENOTFOUND''
            \<or> c = Some ''ECONNRESET'')
        \<longrightarrow> defaultShouldRetry (ErrorObject rs c r) = Inr False)"
proof (intro conjI impI)
  show "defaultShouldRetry err = Inr True \<longleftrightarrow>
      (\<exists>resp cd m. err = ErrorObject resp cd m
         \<and> ((\<exists>n. resp = Some (Response (Some n)) \<and> n \<ge> 500)
            \<or> cd = Some ''ECONNABORTED''
            \<or> cd = Some ''ENOTFOUND''
            \<or> cd = Some ''ECONNRESET''))"
  proof (cases err)
    case (ErrorObject resp cd m)
    show ?thesis
    proof (cases resp)
      case None
      with ErrorObject show ?thesis by simp
    next
      case (Some rr)
      obtain s where "rr = Response s" by (cases rr)
      with Some ErrorObject show ?thesis by (cases s) auto
    qed
  qed simp_all
next
  assume "400 \<le> st \<and> st < 500
        \<and> c \<noteq> Some ''ECONNABORTED'' \<and> c \<noteq> Some ''ENOTFOUND'' \<and> c \<noteq> Some ''ECONNRESET''"
  then show "defaultShouldRetry (ErrorObject (Some (Response (Some st))) c r) = Inr False"
    by simp
next
  assume a: "\<not> ((\<exists>n. rs = Some (Response (Some n)) \<and> n \<ge> 500)
            \<or> c = Some ''ECONNABORTED''
            \<or> c = Some ''ENOTFOUND''
            \<or> c = Some ''ECONNRESET'')"
  show "defaultShouldRetry (ErrorObject rs c r) = Inr False"
  proof (cases rs)
    case None
    with a show ?thesis by simp
  next
    case (Some rr)
    obtain s where "rr = Response s" by (cases rr)
    with Some a show ?thesis by (cases s) auto
  qed
qed

theorem defaultShouldRetry_classification_witness:
  "defaultShouldRetry (ErrorObject (Some (Response (Some 503))) None ()) = Inr True
   \<and> defaultShouldRetry (ErrorObject None (Some ''ENOTFOUND'') ()) = Inr True
   \<and> (400::int) \<le> 404 \<and> (404::int) < 500
   \<and> defaultShouldRetry (ErrorObject (Some (Response (Some 404))) (Some ''ERR_BAD_REQUEST'') ())
       = Inr False
   \<and> defaultShouldRetry (ErrorObject None None ()) = Inr False"
  using defaultShouldRetry_classification
     [of "ErrorObject (Some (Response (Some 503))) None ()" 404 "Some ''ERR_BAD_REQUEST''" "()" None]
  by simp

text \<open>
  Claim C10. With \<^verbatim>\<open>maxAttempts\<close> given and at most 0 the loop body never runs:
  the operation is not invoked, nothing is slept, and the executor rejects with
  \<^verbatim>\<open>undefined\<close>, the initial value of \<^verbatim>\<open>lastError\<close>.
\<close>

theorem no_attempts_rejects_undefined:
  assumes "maxAttempts options = Some n" and "n \<le> 0"
  shows "retryWithExponentialBackoff fn options w
           = (Inl Undefined, \<lparr>world = w, calls = 0, sleeps = []\<rparr>)"
  using assms
  by (simp add: retryWithExponentialBackoff_def with_default_def retry_loop_exit)

theorem no_attempts_rejects_undefined_witness:
  "maxAttempts \<lparr>maxAttempts = Some 0, baseDelay = None, maxDelay = None,
        shouldRetry = (None :: (unit js_error \<Rightarrow> unit js_error + bool) option)\<rparr> = Some 0
   \<and> (0::int) \<le> 0
   \<and> retryWithExponentialBackoff
        (\<lambda>n::nat. (Inr ''success'' :: unit js_error + string, Suc n))
        \<lparr>maxAttempts = Some 0, baseDelay = None, maxDelay = None, shouldRetry = None\<rparr> 0
       = (Inl Undefined, \<lparr>world = 0, calls = 0, sleeps = []\<rparr>)"
proof -
  have a: "maxAttempts \<lparr>maxAttempts = Some 0, baseDelay = None, maxDelay = None,
        shouldRetry = (None :: (unit js_error \<Rightarrow> unit js_error + bool) option)\<rparr> = Some 0"
    by simp
  have b: "(0::int) \<le> 0" by simp
  show ?thesis
    using a b no_attempts_rejects_undefined[OF a b,
        of "\<lambda>n::nat. (Inr ''success'' :: unit js_error + string, Suc n)" 0]
    by simp
qed

end
